theory Spec2Isabelle
  imports Complex_Main
begin

section \<open>Data model of \<open>OrganicScoringBase\<close>\<close>

text \<open>
  The scheduler of \<^verbatim>\<open>atom/organic_scoring/organic_scoring_base.py\<close>.
  Python numbers (\<open>int\<close> and \<open>float\<close> are mixed freely by the source: the step counter is
  compared with the configured frequency, which is \<open>Union[float, int]\<close>) are modelled as
  reals; \<open>int(x)\<close> is truncation towards zero.
\<close>

datatype trigger = Seconds | Steps

text \<open>
  Exceptions. The handler of \<open>start_loop\<close> is \<^verbatim>\<open>except Exception\<close>, so the class of an
  exception matters: \<open>CancelledError\<close> (asyncio, Python 3.8 and later), \<open>KeyboardInterrupt\<close>
  and \<open>SystemExit\<close> derive from \<open>BaseException\<close> only.
\<close>

datatype exc =
    AssertionError
  | TypeError
  | ZeroDivisionError
  | OtherException string
  | CancelledError
  | KeyboardInterrupt
  | SystemExit

fun is_Exception :: "exc \<Rightarrow> bool" where
  "is_Exception CancelledError = False"
| "is_Exception KeyboardInterrupt = False"
| "is_Exception SystemExit = False"
| "is_Exception _ = True"

text \<open>
  The object stored in \<open>_step_lock\<close>. \<open>asyncio.Lock\<close> implements \<open>__aenter__\<close> and
  \<open>__aexit__\<close> only (it is entered with \<^verbatim>\<open>async with\<close>); a lock that implements
  \<open>__enter__\<close> and \<open>__exit__\<close> (such as \<open>threading.Lock\<close>) is \<open>SyncLock\<close>.
\<close>

datatype lock = AsyncioLock | SyncLock

record config =
  trigger_frequency :: real
  trigger :: trigger
  trigger_min :: real
  trigger_scaling_factor :: real

record sched =
  should_exit :: bool
  is_running :: bool
  step_counter :: real
  step_lock :: lock
  queue_size :: nat

subsection \<open>Hooks handed to the axon\<close>

text \<open>
  What the attribute lookup \<open>self._blacklist_fn\<close> (and likewise for the other hooks)
  resolves to: the method of \<open>OrganicScoringBase\<close> itself, or the one a subclass defines.
\<close>

datatype 'h bound_method = BaseMethod | SubMethod 'h

record 'h derived_class =
  sub_on_organic_entry :: 'h
  sub_blacklist_fn :: "'h option"
  sub_priority_fn :: "'h option"
  sub_verify_fn :: "'h option"

definition getattr_method :: "'h option \<Rightarrow> 'h bound_method" where
  "getattr_method ov = (case ov of None \<Rightarrow> BaseMethod | Some h \<Rightarrow> SubMethod h)"

text \<open>
  Modelled from the spec: \<open>is_overridden\<close> of \<open>atom.organic_scoring.utils\<close>, imported by
  the source and not part of it. The spec: the dispatcher "inspects each of
  verify/blacklist/priority to determine whether the owning subclass supplied a non-default
  implementation" (a "reflective check of whether a method was overridden").
\<close>

definition is_overridden :: "'h bound_method \<Rightarrow> bool" where
  "is_overridden m = (case m of BaseMethod \<Rightarrow> False | SubMethod _ \<Rightarrow> True)"

record 'h attach_args =
  forward_fn :: "'h bound_method option"
  blacklist_fn :: "'h bound_method option"
  priority_fn :: "'h bound_method option"
  verify_fn :: "'h bound_method option"

section \<open>Construction\<close>

text \<open>
  \<open>__init__\<close>. The argument \<open>organic_queue\<close> is the size of the queue that is passed in, or
  \<open>None\<close>, for which the source makes an \<open>OrganicQueue()\<close> (taken to be empty). The result
  is the new object and the arguments of the call \<open>self._axon.attach(...)\<close>.
\<close>

definition init :: "'h derived_class \<Rightarrow> config \<Rightarrow> nat option \<Rightarrow> exc + (sched \<times> 'h attach_args)" where
  "init sub cfg organic_queue =
     (if \<not> (trigger_scaling_factor cfg > 0) then Inl AssertionError
      else Inr
        (\<lparr> should_exit = False,
           is_running = False,
           step_counter = 0,
           step_lock = AsyncioLock,
           queue_size = (case organic_queue of None \<Rightarrow> 0 | Some n \<Rightarrow> n) \<rparr>,
         \<lparr> forward_fn = Some (SubMethod (sub_on_organic_entry sub)),
           blacklist_fn =
             (if is_overridden (getattr_method (sub_blacklist_fn sub))
              then Some (getattr_method (sub_blacklist_fn sub)) else None),
           priority_fn =
             (if is_overridden (getattr_method (sub_priority_fn sub))
              then Some (getattr_method (sub_priority_fn sub)) else None),
           verify_fn =
             (if is_overridden (getattr_method (sub_verify_fn sub))
              then Some (getattr_method (sub_verify_fn sub)) else None) \<rparr>))"

section \<open>Step counter\<close>

text \<open>
  The statement \<^verbatim>\<open>with self._step_lock:\<close>. Python looks up \<open>__enter__\<close> and \<open>__exit__\<close> on
  the type of the object; \<open>asyncio.Lock\<close> has neither, and the statement raises before its
  body runs (\<open>TypeError\<close> from Python 3.11 on, \<open>AttributeError\<close> in 3.9 and 3.10).
\<close>

definition with_lock :: "lock \<Rightarrow> (sched \<Rightarrow> sched) \<Rightarrow> sched \<Rightarrow> exc + sched" where
  "with_lock l body s = (case l of AsyncioLock \<Rightarrow> Inl TypeError | SyncLock \<Rightarrow> Inr (body s))"

definition increment_step :: "config \<Rightarrow> sched \<Rightarrow> exc + sched" where
  "increment_step cfg s =
     with_lock (step_lock s)
       (\<lambda>s. if trigger cfg = Steps then s\<lparr>step_counter := step_counter s + 1\<rparr> else s) s"

definition set_step :: "config \<Rightarrow> real \<Rightarrow> sched \<Rightarrow> exc + sched" where
  "set_step cfg step s =
     with_lock (step_lock s)
       (\<lambda>s. if trigger cfg = Steps then s\<lparr>step_counter := step\<rparr> else s) s"

section \<open>Trigger controller\<close>

definition py_int :: "real \<Rightarrow> int" where
  "py_int x = (if 0 \<le> x then \<lfloor>x\<rfloor> else \<lceil>x\<rceil>)"

text \<open>
  \<open>sample_rate_dynamic\<close>. The division \<open>size / self._trigger_scaling_factor\<close> raises
  \<open>ZeroDivisionError\<close> for a zero factor (which \<open>__init__\<close> excludes).
\<close>

definition sample_rate_dynamic :: "config \<Rightarrow> sched \<Rightarrow> exc + real" where
  "sample_rate_dynamic cfg s =
     (let sz = queue_size s in
      if trigger_scaling_factor cfg = 0 then Inl ZeroDivisionError
      else
        let delay = max (trigger_frequency cfg - real sz / trigger_scaling_factor cfg)
                        (trigger_min cfg)
        in Inr (if trigger cfg = Seconds then delay else of_int (py_int delay)))"

section \<open>The scheduling loop\<close>

text \<open>
  The loop is one asyncio task. Other tasks (the admission hooks, whoever sets
  \<open>_should_exit\<close> or advances the step counter) run only while the loop is suspended in an
  \<open>await\<close>. A \<open>world\<close> says what they do to the object during the \<open>n\<close>-th suspension, and
  what the abstract \<open>forward\<close> does when it is awaited at that moment. A \<open>run\<close> is the object
  together with the number of suspensions so far and the observable events.
\<close>

datatype event = Sleep real | ForwardCall | LogError exc

datatype fwd = Returns "string \<Rightarrow> real option" | Raises exc

record world =
  interfere :: "nat \<Rightarrow> sched \<Rightarrow> sched"
  forward_result :: "nat \<Rightarrow> fwd"

record run =
  obj :: sched
  ticks :: nat
  events :: "event list"

datatype result = Return run | Raise exc run

fun run_of :: "result \<Rightarrow> run" where
  "run_of (Return r) = r"
| "run_of (Raise e r) = r"

definition suspend :: "world \<Rightarrow> event \<Rightarrow> run \<Rightarrow> run" where
  "suspend w e r =
     \<lparr> obj = interfere w (ticks r) (obj r), ticks = Suc (ticks r), events = events r @ [e] \<rparr>"

definition log_error :: "exc \<Rightarrow> run \<Rightarrow> run" where
  "log_error e r = r\<lparr>events := events r @ [LogError e]\<rparr>"

text \<open>
  One pass through the body of \<^verbatim>\<open>while True:\<close> in \<open>wait_until_next\<close>; the loop has no
  \<open>break\<close> and no \<open>return\<close>, so every pass is followed by another one. Running out of fuel
  is \<open>None\<close>.
\<close>

definition wait_body :: "real \<Rightarrow> world \<Rightarrow> run \<Rightarrow> run" where
  "wait_body dynamic_unit w r =
     (if step_counter (obj r) \<ge> dynamic_unit
      then r\<lparr>obj := (obj r)\<lparr>step_counter := step_counter (obj r) - dynamic_unit\<rparr>\<rparr>
      else suspend w (Sleep 1) r)"

fun wait_steps :: "nat \<Rightarrow> real \<Rightarrow> world \<Rightarrow> run \<Rightarrow> result option" where
  "wait_steps 0 dynamic_unit w r = None"
| "wait_steps (Suc n) dynamic_unit w r = wait_steps n dynamic_unit w (wait_body dynamic_unit w r)"

definition wait_until_next :: "nat \<Rightarrow> config \<Rightarrow> world \<Rightarrow> real \<Rightarrow> run \<Rightarrow> result option" where
  "wait_until_next n cfg w timer_elapsed r =
     (case sample_rate_dynamic cfg (obj r) of
        Inl e \<Rightarrow> Some (Raise e r)
      | Inr dynamic_unit \<Rightarrow>
          (case trigger cfg of
             Seconds \<Rightarrow>
               (let sleep_duration = max (dynamic_unit - timer_elapsed) 0
                in Some (Return (suspend w (Sleep sleep_duration) r)))
           | Steps \<Rightarrow> wait_steps n dynamic_unit w r))"

text \<open>The inner loop of \<open>start_loop\<close>: poll every 0.1 s while the counter is too small.\<close>

fun step_gate :: "nat \<Rightarrow> config \<Rightarrow> world \<Rightarrow> run \<Rightarrow> run option" where
  "step_gate 0 cfg w r = None"
| "step_gate (Suc n) cfg w r =
     (if step_counter (obj r) < trigger_frequency cfg
      then step_gate n cfg w (suspend w (Sleep (1 / 10)) r)
      else Some r)"

definition idle_gate :: "nat \<Rightarrow> config \<Rightarrow> world \<Rightarrow> run \<Rightarrow> run option" where
  "idle_gate n cfg w r = (if trigger cfg = Steps then step_gate n cfg w r else Some r)"

text \<open>The \<open>try\<close> block, and the \<open>try\<close> statement with its handler \<^verbatim>\<open>except Exception\<close>.\<close>

definition try_body :: "nat \<Rightarrow> config \<Rightarrow> world \<Rightarrow> run \<Rightarrow> result option" where
  "try_body n cfg w r =
     (let r1 = suspend w ForwardCall r in
      case forward_result w (ticks r) of
        Raises e \<Rightarrow> Some (Raise e r1)
      | Returns logs \<Rightarrow>
          (let total_elapsed_time =
                 (case logs ''total_elapsed_time'' of None \<Rightarrow> 0 | Some t \<Rightarrow> t)
           in wait_until_next n cfg w total_elapsed_time r1))"

definition iteration :: "nat \<Rightarrow> config \<Rightarrow> world \<Rightarrow> run \<Rightarrow> result option" where
  "iteration n cfg w r =
     (case try_body n cfg w r of
        None \<Rightarrow> None
      | Some (Return r') \<Rightarrow> Some (Return r')
      | Some (Raise e r') \<Rightarrow>
          (if is_Exception e then Some (Return (suspend w (Sleep 1) (log_error e r')))
           else Some (Raise e r')))"

fun start_loop :: "nat \<Rightarrow> config \<Rightarrow> world \<Rightarrow> run \<Rightarrow> result option" where
  "start_loop 0 cfg w r = None"
| "start_loop (Suc n) cfg w r =
     (if should_exit (obj r) then Some (Return r)
      else
        (case idle_gate n cfg w r of
           None \<Rightarrow> None
         | Some r1 \<Rightarrow>
             (case iteration n cfg w r1 of
                None \<Rightarrow> None
              | Some (Raise e r2) \<Rightarrow> Some (Raise e r2)
              | Some (Return r2) \<Rightarrow> start_loop n cfg w r2)))"

subsection \<open>Operations on the step counter, as a sequence\<close>

text \<open>
  The three writers of the counter: \<open>increment_step\<close>, \<open>set_step\<close> (a call that raises
  leaves the object as it was) and one pass of the loop of \<open>wait_until_next\<close>.
\<close>

definition quiet :: world where
  "quiet = \<lparr> interfere = (\<lambda>n s. s), forward_result = (\<lambda>n. Returns (\<lambda>k. None)) \<rparr>"

definition fresh_run :: "sched \<Rightarrow> run" where
  "fresh_run s = \<lparr> obj = s, ticks = 0, events = [] \<rparr>"

datatype counter_op = Increment | SetStep real | LoopPass real

fun apply_op :: "config \<Rightarrow> sched \<Rightarrow> counter_op \<Rightarrow> sched" where
  "apply_op cfg s Increment = (case increment_step cfg s of Inl e \<Rightarrow> s | Inr s' \<Rightarrow> s')"
| "apply_op cfg s (SetStep v) = (case set_step cfg v s of Inl e \<Rightarrow> s | Inr s' \<Rightarrow> s')"
| "apply_op cfg s (LoopPass dynamic_unit) = obj (wait_body dynamic_unit quiet (fresh_run s))"

definition poll :: "world \<Rightarrow> nat \<Rightarrow> run \<Rightarrow> run" where
  "poll w k r = (suspend w (Sleep (1 / 10)) ^^ k) r"

section \<open>Example configurations\<close>

definition cfg_steps :: config where
  "cfg_steps = \<lparr> trigger_frequency = 10, trigger = Steps, trigger_min = 5 / 2,
                 trigger_scaling_factor = 5 \<rparr>"

definition cfg_seconds :: config where
  "cfg_seconds = \<lparr> trigger_frequency = 10, trigger = Seconds, trigger_min = 2,
                   trigger_scaling_factor = 5 \<rparr>"

definition sub_plain :: "unit derived_class" where
  "sub_plain = \<lparr> sub_on_organic_entry = (), sub_blacklist_fn = None,
                 sub_priority_fn = None, sub_verify_fn = None \<rparr>"



definition cfg_five :: config where
  "cfg_five = \<lparr> trigger_frequency = 5, trigger = Steps, trigger_min = 2,
                trigger_scaling_factor = 5 \<rparr>"

definition ten_steps :: sched where
  "ten_steps = \<lparr> should_exit = False, is_running = False, step_counter = 10,
                 step_lock = AsyncioLock, queue_size = 0 \<rparr>"

definition stopping :: world where
  "stopping = \<lparr> interfere = (\<lambda>n s. s\<lparr>should_exit := True\<rparr>),
                forward_result = (\<lambda>n. Returns (\<lambda>k. None)) \<rparr>"

definition sync_zero :: sched where
  "sync_zero = \<lparr> should_exit = False, is_running = False, step_counter = 0,
                 step_lock = SyncLock, queue_size = 0 \<rparr>"

definition some_ops :: "counter_op list" where
  "some_ops = [Increment, Increment, Increment, LoopPass 2, SetStep 1, LoopPass 2, LoopPass 1]"

definition stepping_failing :: world where
  "stepping_failing =
     \<lparr> interfere = (\<lambda>n s. s\<lparr>step_counter := step_counter s + 1, should_exit := (3 \<le> n)\<rparr>),
       forward_result = (\<lambda>n. Raises (OtherException ''boom'')) \<rparr>"

definition three_steps :: sched where
  "three_steps = \<lparr> should_exit = False, is_running = False, step_counter = 3,
                 step_lock = AsyncioLock, queue_size = 0 \<rparr>"

definition three_backlog :: sched where
  "three_backlog = \<lparr> should_exit = False, is_running = False, step_counter = 3,
                     step_lock = AsyncioLock, queue_size = 100 \<rparr>"

definition ten_queued :: sched where
  "ten_queued = \<lparr> should_exit = False, is_running = False, step_counter = 0,
                 step_lock = AsyncioLock, queue_size = 10 \<rparr>"

definition timed :: "real \<Rightarrow> world" where
  "timed x = \<lparr> interfere = (\<lambda>n s. s),
               forward_result = (\<lambda>n. Returns [''total_elapsed_time'' \<mapsto> x]) \<rparr>"

definition failing_once :: world where
  "failing_once =
     \<lparr> interfere = (\<lambda>n s. if n = 3 then s\<lparr>should_exit := True\<rparr> else s),
       forward_result = (\<lambda>n. if n = 0 then Raises (OtherException ''boom'')
                               else Returns (\<lambda>k. None)) \<rparr>"

definition cancelling :: world where
  "cancelling = \<lparr> interfere = (\<lambda>n s. s), forward_result = (\<lambda>n. Raises CancelledError) \<rparr>"

section \<open>Truncation\<close>





section \<open>Construction: the scaling factor\<close>

text \<open>
  C10. A scaling factor that is zero or negative makes \<open>__init__\<close> raise \<open>AssertionError\<close>:
  no object is returned, so no loop can be started on it. A positive factor makes
  construction return the object, with the loop flags off and the counter at zero.
\<close>

theorem init_scaling_factor:
  "(trigger_scaling_factor cfg \<le> 0 \<longrightarrow> init sub cfg q = Inl AssertionError) \<and>
   (0 < trigger_scaling_factor cfg \<longrightarrow>
      (\<exists>s a. init sub cfg q = Inr (s, a) \<and> \<not> should_exit s \<and> \<not> is_running s \<and>
             step_counter s = 0))"
  by (simp add: init_def)

theorem init_scaling_factor_witness:
  "trigger_scaling_factor (cfg_seconds\<lparr>trigger_scaling_factor := 0\<rparr>) \<le> 0 \<and>
   init sub_plain (cfg_seconds\<lparr>trigger_scaling_factor := 0\<rparr>) None = Inl AssertionError \<and>
   trigger_scaling_factor (cfg_seconds\<lparr>trigger_scaling_factor := - 3\<rparr>) \<le> 0 \<and>
   init sub_plain (cfg_seconds\<lparr>trigger_scaling_factor := - 3\<rparr>) None = Inl AssertionError \<and>
   0 < trigger_scaling_factor cfg_seconds \<and>
   (\<exists>s a. init sub_plain cfg_seconds None = Inr (s, a) \<and> \<not> should_exit s \<and>
          \<not> is_running s \<and> step_counter s = 0)"
  using init_scaling_factor [of "cfg_seconds\<lparr>trigger_scaling_factor := 0\<rparr>" sub_plain None]
        init_scaling_factor [of "cfg_seconds\<lparr>trigger_scaling_factor := - 3\<rparr>" sub_plain None]
        init_scaling_factor [of cfg_seconds sub_plain None]
  by (simp add: cfg_seconds_def)

section \<open>Construction: the hooks\<close>



section \<open>The dynamic unit and its floor\<close>




section \<open>The step counter's two entry points\<close>

lemma increment_step_SyncLock:
  "step_lock s = SyncLock \<Longrightarrow>
   increment_step cfg s =
     Inr (if trigger cfg = Steps then s\<lparr>step_counter := step_counter s + 1\<rparr> else s)"
  by (simp add: increment_step_def with_lock_def)

lemma set_step_SyncLock:
  "step_lock s = SyncLock \<Longrightarrow>
   set_step cfg v s = Inr (if trigger cfg = Steps then s\<lparr>step_counter := v\<rparr> else s)"
  by (simp add: set_step_def with_lock_def)

text \<open>
  C6. On the object that \<open>__init__\<close> builds, whose lock is an \<open>asyncio.Lock\<close>, both
  \<open>increment_step\<close> and \<open>set_step\<close> raise at the \<^verbatim>\<open>with\<close> statement, in either trigger
  mode, and the counter keeps its value: the guarded update is never reached.
\<close>

theorem step_lock_raises:
  "(case init sub_plain cfg_steps None of
      Inl e \<Rightarrow> False
    | Inr (s, a) \<Rightarrow>
        step_counter s = 0 \<and>
        increment_step cfg_steps s = Inl TypeError \<and> set_step cfg_steps 7 s = Inl TypeError \<and>
        increment_step cfg_seconds s = Inl TypeError \<and> set_step cfg_seconds 7 s = Inl TypeError)"
  by (simp add: init_def cfg_steps_def cfg_seconds_def increment_step_def set_step_def
      with_lock_def)

section \<open>The loop of \<open>wait_until_next\<close> in Steps mode\<close>

lemma wait_steps_None: "wait_steps n du w r = None"
  by (induction n arbitrary: r) simp_all

lemma wait_until_next_Steps:
  "trigger cfg = Steps \<Longrightarrow> trigger_scaling_factor cfg \<noteq> 0 \<Longrightarrow>
   wait_until_next n cfg w t r = None"
  by (simp add: wait_until_next_def sample_rate_dynamic_def Let_def wait_steps_None)

lemma start_loop_exit: "should_exit (obj r) \<Longrightarrow> start_loop (Suc n) cfg w r = Some (Return r)"
  by simp

text \<open>
  C1. With frequency 5, factor 5, floor 2 and an empty queue the dynamic unit is 5. Entered
  with a counter of 10, the loop of \<open>wait_until_next\<close> subtracts the unit on its first pass
  and again on its second (10, 5, 0) and then sleeps for ever: whatever the fuel, the call
  does not return.
\<close>

theorem wait_until_next_steps_never_returns:
  "sample_rate_dynamic cfg_five ten_steps = Inr 5 \<and>
   step_counter (obj (wait_body 5 quiet (fresh_run ten_steps))) = 5 \<and>
   step_counter (obj (wait_body 5 quiet (wait_body 5 quiet (fresh_run ten_steps)))) = 0 \<and>
   wait_until_next fuel cfg_five quiet 0 (fresh_run ten_steps) = None"
proof -
  have "wait_until_next fuel cfg_five quiet 0 (fresh_run ten_steps) = None"
    by (rule wait_until_next_Steps) (simp_all add: cfg_five_def)
  moreover have "sample_rate_dynamic cfg_five ten_steps = Inr 5"
    by (simp add: sample_rate_dynamic_def cfg_five_def ten_steps_def py_int_def)
  ultimately show ?thesis
    by (simp add: wait_body_def fresh_run_def ten_steps_def)
qed

section \<open>Leaving the loop\<close>

lemma start_loop_Return_should_exit:
  "start_loop n cfg w r = Some (Return r') \<Longrightarrow> should_exit (obj r')"
proof (induction n arbitrary: r)
  case 0
  then show ?case by simp
next
  case (Suc n)
  show ?case
  proof (cases "should_exit (obj r)")
    case True
    then show ?thesis using Suc.prems by simp
  next
    case False
    then show ?thesis using Suc.prems Suc.IH
      by (auto split: option.splits result.splits)
  qed
qed

text \<open>
  C4. Steps mode, frequency 5, counter 10. The gate lets the first iteration through,
  \<open>_should_exit\<close> is set while \<open>forward\<close> is awaited, \<open>forward\<close> returns, and
  \<open>wait_until_next\<close> never hands control back: whatever the fuel, \<open>start_loop\<close> does not
  return, so the flag is never looked at again.
\<close>

theorem stop_never_observed_in_steps_mode:
  "\<not> should_exit (obj (fresh_run ten_steps)) \<and>
   idle_gate (Suc n) cfg_five stopping (fresh_run ten_steps) = Some (fresh_run ten_steps) \<and>
   should_exit (obj (suspend stopping ForwardCall (fresh_run ten_steps))) \<and>
   start_loop fuel cfg_five stopping (fresh_run ten_steps) = None"
proof -
  have g: "idle_gate (Suc k) cfg_five stopping (fresh_run ten_steps) = Some (fresh_run ten_steps)" for k
    by (simp add: idle_gate_def cfg_five_def fresh_run_def ten_steps_def)
  have t: "try_body k cfg_five stopping (fresh_run ten_steps) = None" for k
    by (simp add: try_body_def stopping_def Let_def wait_until_next_Steps cfg_five_def)
  have i: "iteration k cfg_five stopping (fresh_run ten_steps) = None" for k
    by (simp add: iteration_def t)
  have "start_loop fuel cfg_five stopping (fresh_run ten_steps) = None"
  proof (cases fuel)
    case 0
    then show ?thesis by simp
  next
    case (Suc k)
    show ?thesis
    proof (cases k)
      case 0
      then show ?thesis using Suc by (simp add: idle_gate_def cfg_five_def fresh_run_def ten_steps_def)
    next
      case (Suc j)
      then show ?thesis using \<open>fuel = Suc k\<close> g [of j] i [of "Suc j"]
        by (simp add: fresh_run_def ten_steps_def)
    qed
  qed
  then show ?thesis using g [of n]
    by (simp add: fresh_run_def ten_steps_def suspend_def stopping_def)
qed

section \<open>The step counter stays non-negative\<close>

lemma apply_op_nonneg:
  assumes "0 \<le> step_counter s" and "\<forall>v. x = SetStep v \<longrightarrow> 0 \<le> v"
  shows "0 \<le> step_counter (apply_op cfg s x)"
proof (cases x)
  case Increment
  then show ?thesis using assms(1)
    by (cases "step_lock s") (simp_all add: increment_step_def with_lock_def)
next
  case (SetStep v)
  then show ?thesis using assms
    by (cases "step_lock s") (simp_all add: set_step_def with_lock_def)
next
  case (LoopPass d)
  then show ?thesis using assms(1)
    by (simp add: wait_body_def fresh_run_def suspend_def quiet_def)
qed

lemma foldl_apply_op_nonneg:
  "0 \<le> step_counter s \<Longrightarrow> \<forall>v. SetStep v \<in> set ops \<longrightarrow> 0 \<le> v \<Longrightarrow>
   0 \<le> step_counter (foldl (apply_op cfg) s ops)"
proof (induction ops arbitrary: s)
  case Nil
  then show ?case by simp
next
  case (Cons x xs)
  have "0 \<le> step_counter (apply_op cfg s x)"
    using Cons.prems by (intro apply_op_nonneg) auto
  then show ?case using Cons.IH Cons.prems by simp
qed

text \<open>
  C7. From a counter of zero, after every prefix of any sequence of \<open>increment_step\<close>,
  \<open>set_step\<close> with non-negative values and passes of the loop of \<open>wait_until_next\<close> (with
  any dynamic unit), the counter is not negative.
\<close>

theorem step_counter_never_negative:
  assumes "step_counter s = 0" and "\<forall>v. SetStep v \<in> set ops \<longrightarrow> 0 \<le> v"
  shows "\<forall>k. 0 \<le> step_counter (foldl (apply_op cfg) s (take k ops))"
proof
  fix k
  have "\<forall>v. SetStep v \<in> set (take k ops) \<longrightarrow> 0 \<le> v"
    using assms(2) by (meson in_set_takeD)
  then show "0 \<le> step_counter (foldl (apply_op cfg) s (take k ops))"
    using assms(1) by (intro foldl_apply_op_nonneg) simp_all
qed

theorem step_counter_never_negative_witness:
  "step_counter sync_zero = 0 \<and>
   step_counter (foldl (apply_op cfg_five) sync_zero (take 4 some_ops)) = 1 \<and>
   (\<forall>k. 0 \<le> step_counter (foldl (apply_op cfg_five) sync_zero (take k some_ops)))"
proof -
  have a: "step_counter sync_zero = 0" by (simp add: sync_zero_def)
  have b: "\<forall>v. SetStep v \<in> set some_ops \<longrightarrow> 0 \<le> v" by (auto simp: some_ops_def)
  have c: "step_counter (foldl (apply_op cfg_five) sync_zero (take 4 some_ops)) = 1"
    by (simp add: some_ops_def sync_zero_def cfg_five_def increment_step_def set_step_def
        with_lock_def wait_body_def fresh_run_def suspend_def quiet_def)
  show ?thesis using step_counter_never_negative [OF a b, of cfg_five] a b c by simp
qed

section \<open>The gate before sampling\<close>

lemma poll_0: "poll w 0 r = r"
  by (simp add: poll_def)

lemma poll_Suc: "poll w (Suc k) r = poll w k (suspend w (Sleep (1 / 10)) r)"
  by (simp add: poll_def funpow_swap1)

lemma events_poll: "events (poll w k r) = events r @ replicate k (Sleep (1 / 10))"
proof (induction k arbitrary: r)
  case 0
  then show ?case by (simp add: poll_0)
next
  case (Suc k)
  then show ?case by (simp add: poll_Suc suspend_def replicate_append_same)
qed

lemma step_gate_Some_iff:
  "step_gate n cfg w r = Some r' \<longleftrightarrow>
     (\<exists>k<n. r' = poll w k r \<and> trigger_frequency cfg \<le> step_counter (obj (poll w k r)) \<and>
            (\<forall>j<k. step_counter (obj (poll w j r)) < trigger_frequency cfg))"
proof (induction n arbitrary: r)
  case 0
  then show ?case by simp
next
  case (Suc n)
  show ?case
  proof (cases "step_counter (obj r) < trigger_frequency cfg")
    case True
    have "step_gate (Suc n) cfg w r = step_gate n cfg w (suspend w (Sleep (1 / 10)) r)"
      using True by simp
    then show ?thesis using True
      by (simp add: Suc.IH Ex_less_Suc2 All_less_Suc2 poll_0 poll_Suc)
  next
    case False
    have "step_gate (Suc n) cfg w r = Some r" using False by simp
    then show ?thesis using False
      by (auto simp: Ex_less_Suc2 All_less_Suc2 poll_0 poll_Suc)
  qed
qed

lemma step_gate_first:
  assumes "k < n" and "trigger_frequency cfg \<le> step_counter (obj (poll w k r))"
      and "\<forall>j<k. step_counter (obj (poll w j r)) < trigger_frequency cfg"
  shows "step_gate n cfg w r = Some (poll w k r)"
  using assms step_gate_Some_iff [of n cfg w r "poll w k r"] by blast

lemma step_gate_blocked:
  assumes "\<forall>j<n. step_counter (obj (poll w j r)) < trigger_frequency cfg"
  shows "step_gate n cfg w r = None"
proof (cases "step_gate n cfg w r")
  case None
  then show ?thesis .
next
  case (Some r')
  then obtain k where "k < n" "trigger_frequency cfg \<le> step_counter (obj (poll w k r))"
    using step_gate_Some_iff [of n cfg w r r'] by blast
  then show ?thesis using assms by force
qed

lemma events_suspend: "events (suspend w e r) = events r @ [e]"
  by (simp add: suspend_def)

lemma wait_until_next_events:
  "wait_until_next n cfg w t r = Some res \<Longrightarrow> \<exists>es. events (run_of res) = events r @ es"
  by (auto simp: wait_until_next_def wait_steps_None events_suspend
      split: sum.splits trigger.splits)

lemma try_body_events:
  assumes "try_body n cfg w r = Some res"
  shows "\<exists>es. events (run_of res) = events r @ ForwardCall # es"
proof (cases "forward_result w (ticks r)")
  case (Raises e)
  then have "res = Raise e (suspend w ForwardCall r)"
    using assms by (simp add: try_body_def)
  then show ?thesis by (simp add: events_suspend)
next
  case (Returns logs)
  then obtain t where "wait_until_next n cfg w t (suspend w ForwardCall r) = Some res"
    using assms by (simp add: try_body_def)
  then obtain es where "events (run_of res) = events (suspend w ForwardCall r) @ es"
    using wait_until_next_events by blast
  then show ?thesis by (simp add: events_suspend)
qed

lemma iteration_events:
  assumes "iteration n cfg w r = Some res"
  shows "\<exists>es. events (run_of res) = events r @ ForwardCall # es"
proof (cases "try_body n cfg w r")
  case None
  then show ?thesis using assms by (simp add: iteration_def)
next
  case (Some res')
  then obtain es where e: "events (run_of res') = events r @ ForwardCall # es"
    using try_body_events by blast
  show ?thesis
  proof (cases res')
    case (Return r')
    then show ?thesis using assms Some e by (simp add: iteration_def)
  next
    case (Raise x r')
    then show ?thesis using assms Some e
      by (auto simp: iteration_def events_suspend log_error_def split: if_splits)
  qed
qed

lemma idle_gate_events:
  assumes "idle_gate n cfg w r = Some r1"
  shows "\<exists>es. events r1 = events r @ es"
proof (cases "trigger cfg")
  case Seconds
  then show ?thesis using assms by (simp add: idle_gate_def)
next
  case Steps
  then have "step_gate n cfg w r = Some r1" using assms by (simp add: idle_gate_def)
  then obtain k where "r1 = poll w k r" using step_gate_Some_iff [of n cfg w r r1] by blast
  then show ?thesis by (simp add: events_poll)
qed

lemma start_loop_events:
  "start_loop n cfg w r = Some res \<Longrightarrow> \<exists>es. events (run_of res) = events r @ es"
proof (induction n arbitrary: r)
  case 0
  then show ?case by simp
next
  case (Suc n)
  show ?case
  proof (cases "should_exit (obj r)")
    case True
    then show ?thesis using Suc.prems by auto
  next
    case False
    then obtain r1 where g: "idle_gate n cfg w r = Some r1"
      using Suc.prems by (auto split: option.splits)
    then obtain es1 where e1: "events r1 = events r @ es1" using idle_gate_events by blast
    obtain res2 where i: "iteration n cfg w r1 = Some res2"
      using Suc.prems False g by (auto split: option.splits)
    then obtain es2 where e2: "events (run_of res2) = events r1 @ ForwardCall # es2"
      using iteration_events by blast
    show ?thesis
    proof (cases res2)
      case (Raise x r2)
      then have "res = Raise x r2" using Suc.prems False g i by simp
      then show ?thesis using e1 e2 Raise by simp
    next
      case (Return r2)
      then have "start_loop n cfg w r2 = Some res" using Suc.prems False g i by simp
      then obtain es3 where "events (run_of res) = events r2 @ es3" using Suc.IH by blast
      then show ?thesis using e1 e2 Return by simp
    qed
  qed
qed

lemma start_loop_after_gate:
  assumes "\<not> should_exit (obj r)" and "idle_gate n cfg w r = Some r1"
  shows "start_loop (Suc n) cfg w r =
           (case iteration n cfg w r1 of
              None \<Rightarrow> None
            | Some (Raise e r2) \<Rightarrow> Some (Raise e r2)
            | Some (Return r2) \<Rightarrow> start_loop n cfg w r2)"
    and "start_loop (Suc n) cfg w r = Some res \<Longrightarrow>
           \<exists>es. events (run_of res) = events r1 @ ForwardCall # es"
proof -
  show eq: "start_loop (Suc n) cfg w r =
           (case iteration n cfg w r1 of
              None \<Rightarrow> None
            | Some (Raise e r2) \<Rightarrow> Some (Raise e r2)
            | Some (Return r2) \<Rightarrow> start_loop n cfg w r2)"
    using assms by simp
  assume s: "start_loop (Suc n) cfg w r = Some res"
  then obtain res2 where i: "iteration n cfg w r1 = Some res2"
    using eq by (auto split: option.splits)
  then obtain es2 where e2: "events (run_of res2) = events r1 @ ForwardCall # es2"
    using iteration_events by blast
  show "\<exists>es. events (run_of res) = events r1 @ ForwardCall # es"
  proof (cases res2)
    case (Raise x r2)
    then have "res = Raise x r2" using s eq i by simp
    then show ?thesis using e2 Raise by simp
  next
    case (Return r2)
    then have "start_loop n cfg w r2 = Some res" using s eq i by simp
    then obtain es3 where "events (run_of res) = events r2 @ es3"
      using start_loop_events by blast
    then show ?thesis using e2 Return by simp
  qed
qed

text \<open>
  C8. At the top of an iteration that is not stopped, in Steps mode \<open>start_loop\<close> polls in
  sleeps of 0.1 s and samples (awaits \<open>forward\<close>) on the state of the first poll \<open>k\<close> at
  which the counter has reached \<open>trigger_frequency\<close>: whatever it returns begins with those
  \<open>k\<close> sleeps followed by the call of \<open>forward\<close>; and as long as the counter stays below
  \<open>trigger_frequency\<close> it does not sample at all. The threshold is \<open>trigger_frequency\<close>:
  the outcome of the gate does not depend on \<open>trigger_min\<close> or \<open>trigger_scaling_factor\<close>,
  which the dynamic unit is computed from. In Seconds mode \<open>start_loop\<close> samples at once,
  with no sleep before the call of \<open>forward\<close>.
\<close>

theorem start_loop_gate_static_frequency:
  "(\<not> should_exit (obj r) \<longrightarrow>
      (trigger cfg = Steps \<longrightarrow>
         (\<forall>k<n. trigger_frequency cfg \<le> step_counter (obj (poll w k r)) \<and>
                (\<forall>j<k. step_counter (obj (poll w j r)) < trigger_frequency cfg) \<longrightarrow>
            start_loop (Suc n) cfg w r =
              (case iteration n cfg w (poll w k r) of
                 None \<Rightarrow> None
               | Some (Raise e r2) \<Rightarrow> Some (Raise e r2)
               | Some (Return r2) \<Rightarrow> start_loop n cfg w r2) \<and>
            (\<forall>res. start_loop (Suc n) cfg w r = Some res \<longrightarrow>
               (\<exists>es. events (run_of res) =
                       events r @ replicate k (Sleep (1 / 10)) @ ForwardCall # es))) \<and>
         ((\<forall>j<n. step_counter (obj (poll w j r)) < trigger_frequency cfg) \<longrightarrow>
            start_loop (Suc n) cfg w r = None)) \<and>
      (trigger cfg = Seconds \<longrightarrow>
         start_loop (Suc n) cfg w r =
           (case iteration n cfg w r of
              None \<Rightarrow> None
            | Some (Raise e r2) \<Rightarrow> Some (Raise e r2)
            | Some (Return r2) \<Rightarrow> start_loop n cfg w r2) \<and>
         (\<forall>res. start_loop (Suc n) cfg w r = Some res \<longrightarrow>
            (\<exists>es. events (run_of res) = events r @ ForwardCall # es)))) \<and>
   (trigger cfg = Steps \<longrightarrow>
      (idle_gate n cfg w r = Some r' \<longleftrightarrow>
         (\<exists>k<n. r' = poll w k r \<and> trigger_frequency cfg \<le> step_counter (obj (poll w k r)) \<and>
                (\<forall>j<k. step_counter (obj (poll w j r)) < trigger_frequency cfg)))) \<and>
   (trigger cfg = Seconds \<longrightarrow> idle_gate n cfg w r = Some r) \<and>
   idle_gate n (cfg\<lparr>trigger_min := m, trigger_scaling_factor := f\<rparr>) w r = idle_gate n cfg w r \<and>
   events (poll w k' r) = events r @ replicate k' (Sleep (1 / 10))"
proof -
  have steps_first: "start_loop (Suc n) cfg w r =
           (case iteration n cfg w (poll w k r) of
              None \<Rightarrow> None
            | Some (Raise e r2) \<Rightarrow> Some (Raise e r2)
            | Some (Return r2) \<Rightarrow> start_loop n cfg w r2) \<and>
         (\<forall>res. start_loop (Suc n) cfg w r = Some res \<longrightarrow>
            (\<exists>es. events (run_of res) =
                    events r @ replicate k (Sleep (1 / 10)) @ ForwardCall # es))"
    if x: "\<not> should_exit (obj r)" and t: "trigger cfg = Steps" and k: "k < n"
      and reach: "trigger_frequency cfg \<le> step_counter (obj (poll w k r))"
      and below: "\<forall>j<k. step_counter (obj (poll w j r)) < trigger_frequency cfg" for k
  proof -
    have g: "idle_gate n cfg w r = Some (poll w k r)"
      using t step_gate_first [OF k reach below] by (simp add: idle_gate_def)
    show ?thesis
      using start_loop_after_gate [OF x g] by (simp add: events_poll)
  qed
  have steps_blocked: "start_loop (Suc n) cfg w r = None"
    if x: "\<not> should_exit (obj r)" and t: "trigger cfg = Steps"
      and below: "\<forall>j<n. step_counter (obj (poll w j r)) < trigger_frequency cfg"
  proof -
    have "idle_gate n cfg w r = None"
      using t step_gate_blocked [OF below] by (simp add: idle_gate_def)
    then show ?thesis using x by simp
  qed
  have a: "trigger cfg = Steps \<longrightarrow>
      (idle_gate n cfg w r = Some r' \<longleftrightarrow>
         (\<exists>k<n. r' = poll w k r \<and> trigger_frequency cfg \<le> step_counter (obj (poll w k r)) \<and>
                (\<forall>j<k. step_counter (obj (poll w j r)) < trigger_frequency cfg)))"
    by (simp add: idle_gate_def step_gate_Some_iff)
  have b: "trigger cfg = Seconds \<longrightarrow> idle_gate n cfg w r = Some r"
    by (simp add: idle_gate_def)
  have seconds: "start_loop (Suc n) cfg w r =
        (case iteration n cfg w r of
           None \<Rightarrow> None
         | Some (Raise e r2) \<Rightarrow> Some (Raise e r2)
         | Some (Return r2) \<Rightarrow> start_loop n cfg w r2) \<and>
      (\<forall>res. start_loop (Suc n) cfg w r = Some res \<longrightarrow>
         (\<exists>es. events (run_of res) = events r @ ForwardCall # es))"
    if x: "\<not> should_exit (obj r)" and t: "trigger cfg = Seconds"
  proof -
    have g: "idle_gate n cfg w r = Some r" using t by (simp add: idle_gate_def)
    show ?thesis using start_loop_after_gate [OF x g] by simp
  qed
  have c: "step_gate n (cfg\<lparr>trigger_min := m, trigger_scaling_factor := f\<rparr>) w r =
           step_gate n cfg w r"
    by (induction n arbitrary: r) simp_all
  have d: "idle_gate n (cfg\<lparr>trigger_min := m, trigger_scaling_factor := f\<rparr>) w r =
           idle_gate n cfg w r"
    by (simp add: idle_gate_def c)
  show ?thesis
    using steps_first steps_blocked a b seconds d events_poll [of w k' r] by blast
qed

theorem start_loop_gate_static_frequency_witness:
  "trigger cfg_five = Steps \<and>
   step_counter (obj (poll stepping_failing 0 (fresh_run three_steps))) = 3 \<and>
   step_counter (obj (poll stepping_failing 1 (fresh_run three_steps))) = 4 \<and>
   step_counter (obj (poll stepping_failing 2 (fresh_run three_steps))) = 5 \<and>
   start_loop 4 cfg_five stepping_failing (fresh_run three_steps) =
     Some (Return \<lparr> obj = three_steps\<lparr>should_exit := True, step_counter := 7\<rparr>, ticks = 4,
                    events = [Sleep (1 / 10), Sleep (1 / 10), ForwardCall,
                              LogError (OtherException ''boom''), Sleep 1] \<rparr>) \<and>
   start_loop 3 cfg_five quiet (fresh_run three_steps) = None \<and>
   sample_rate_dynamic cfg_steps three_backlog = Inr 2 \<and>
   start_loop 3 cfg_steps quiet (fresh_run three_backlog) = None \<and>
   idle_gate 3 cfg_five stepping_failing (fresh_run three_steps) =
     Some (poll stepping_failing 2 (fresh_run three_steps)) \<and>
   trigger cfg_seconds = Seconds \<and>
   start_loop 1 cfg_seconds cancelling (fresh_run ten_queued) =
     Some (Raise CancelledError \<lparr> obj = ten_queued, ticks = 1, events = [ForwardCall] \<rparr>) \<and>
   idle_gate 0 cfg_seconds cancelling (fresh_run ten_queued) = Some (fresh_run ten_queued)"
proof -
  have x: "\<not> should_exit (obj (fresh_run three_steps))"
    by (simp add: fresh_run_def three_steps_def)
  have t: "trigger cfg_five = Steps" by (simp add: cfg_five_def)
  have p0: "step_counter (obj (poll stepping_failing 0 (fresh_run three_steps))) = 3"
    by (simp add: poll_def fresh_run_def three_steps_def)
  have p1: "step_counter (obj (poll stepping_failing 1 (fresh_run three_steps))) = 4"
    by (simp add: poll_def suspend_def stepping_failing_def fresh_run_def three_steps_def)
  have p2: "poll stepping_failing 2 (fresh_run three_steps) =
      \<lparr> obj = three_steps\<lparr>step_counter := 5\<rparr>, ticks = 2,
        events = [Sleep (1 / 10), Sleep (1 / 10)] \<rparr>"
    by (simp add: poll_def eval_nat_numeral suspend_def stepping_failing_def fresh_run_def
        three_steps_def)
  have s4: "start_loop 4 cfg_five stepping_failing (fresh_run three_steps) =
     Some (Return \<lparr> obj = three_steps\<lparr>should_exit := True, step_counter := 7\<rparr>, ticks = 4,
                    events = [Sleep (1 / 10), Sleep (1 / 10), ForwardCall,
                              LogError (OtherException ''boom''), Sleep 1] \<rparr>)"
    by (simp add: eval_nat_numeral idle_gate_def iteration_def try_body_def log_error_def
        suspend_def stepping_failing_def fresh_run_def three_steps_def cfg_five_def)
  have q: "poll quiet j r = r\<lparr>ticks := ticks r + j, events := events r @ replicate j (Sleep (1 / 10))\<rparr>"
    for j r
    by (induction j arbitrary: r) (simp_all add: poll_0 poll_Suc suspend_def quiet_def replicate_append_same)
  have b5: "\<forall>j<2. step_counter (obj (poll quiet j (fresh_run three_steps))) < trigger_frequency cfg_five"
    by (simp add: q fresh_run_def three_steps_def cfg_five_def)
  have b10: "\<forall>j<2. step_counter (obj (poll quiet j (fresh_run three_backlog))) < trigger_frequency cfg_steps"
    by (simp add: q fresh_run_def three_backlog_def cfg_steps_def)
  have du: "sample_rate_dynamic cfg_steps three_backlog = Inr 2"
    by (simp add: sample_rate_dynamic_def cfg_steps_def three_backlog_def py_int_def)
  have g3: "idle_gate 3 cfg_five stepping_failing (fresh_run three_steps) =
              Some (poll stepping_failing 2 (fresh_run three_steps))"
    unfolding p2
    by (simp add: idle_gate_def eval_nat_numeral suspend_def stepping_failing_def fresh_run_def
        three_steps_def cfg_five_def)
  have n5: "start_loop 3 cfg_five quiet (fresh_run three_steps) = None"
    using start_loop_gate_static_frequency [of "fresh_run three_steps" cfg_five 2 quiet] x t b5
    by (simp add: eval_nat_numeral)
  have n10: "start_loop 3 cfg_steps quiet (fresh_run three_backlog) = None"
    using start_loop_gate_static_frequency [of "fresh_run three_backlog" cfg_steps 2 quiet] b10
    by (simp add: eval_nat_numeral fresh_run_def three_backlog_def cfg_steps_def)
  have sec: "start_loop 1 cfg_seconds cancelling (fresh_run ten_queued) =
     Some (Raise CancelledError \<lparr> obj = ten_queued, ticks = 1, events = [ForwardCall] \<rparr>)"
    using start_loop_gate_static_frequency [of "fresh_run ten_queued" cfg_seconds 0 cancelling]
    by (simp add: iteration_def try_body_def cancelling_def suspend_def fresh_run_def
        ten_queued_def cfg_seconds_def)
  have gs: "idle_gate 0 cfg_seconds cancelling (fresh_run ten_queued) = Some (fresh_run ten_queued)"
    by (simp add: idle_gate_def cfg_seconds_def)
  show ?thesis
    using start_loop_gate_static_frequency [of "fresh_run three_steps" cfg_five 3 stepping_failing]
          x t p0 p1 p2 s4 n5 du n10 g3 sec gs
    by (simp add: cfg_seconds_def)
qed

section \<open>Waiting in Seconds mode\<close>

text \<open>
  C9. In Seconds mode, with a positive scaling factor, \<open>wait_until_next\<close> sleeps once, for
  \<open>max(dynamic_unit - timer_elapsed, 0)\<close>, where \<open>dynamic_unit\<close> is the untruncated
  annealed delay for the current queue size; and the loop passes as \<open>timer_elapsed\<close> the
  entry \<open>total_elapsed_time\<close> of what \<open>forward\<close> returned, or 0 when the key is absent.
\<close>

theorem seconds_wait_duration:
  assumes "trigger cfg = Seconds" and "0 < trigger_scaling_factor cfg"
  shows "wait_until_next n cfg w timer_elapsed r =
           Some (Return (suspend w
             (Sleep (max (max (trigger_frequency cfg
                               - real (queue_size (obj r)) / trigger_scaling_factor cfg)
                              (trigger_min cfg) - timer_elapsed) 0)) r))
         \<and> sample_rate_dynamic cfg (obj r) =
             Inr (max (trigger_frequency cfg
                       - real (queue_size (obj r)) / trigger_scaling_factor cfg) (trigger_min cfg))
         \<and> (forward_result w (ticks r) = Returns logs \<longrightarrow>
              try_body n cfg w r =
                wait_until_next n cfg w
                  (case logs ''total_elapsed_time'' of None \<Rightarrow> 0 | Some t \<Rightarrow> t)
                  (suspend w ForwardCall r))"
  using assms by (simp add: wait_until_next_def sample_rate_dynamic_def try_body_def Let_def)

theorem seconds_wait_duration_witness:
  "trigger cfg_seconds = Seconds \<and> 0 < trigger_scaling_factor cfg_seconds \<and>
   try_body 0 cfg_seconds (timed 3) (fresh_run ten_queued) =
     Some (Return \<lparr> obj = ten_queued, ticks = 2, events = [ForwardCall, Sleep 5] \<rparr>) \<and>
   try_body 0 cfg_seconds (timed 20) (fresh_run ten_queued) =
     Some (Return \<lparr> obj = ten_queued, ticks = 2, events = [ForwardCall, Sleep 0] \<rparr>) \<and>
   try_body 0 cfg_seconds quiet (fresh_run ten_queued) =
     Some (Return \<lparr> obj = ten_queued, ticks = 2, events = [ForwardCall, Sleep 8] \<rparr>)"
proof -
  have t: "trigger cfg_seconds = Seconds" and f: "0 < trigger_scaling_factor cfg_seconds"
    by (simp_all add: cfg_seconds_def)
  have q: "queue_size ten_queued = 10" by (simp add: ten_queued_def)
  have c: "trigger_frequency cfg_seconds = 10" "trigger_min cfg_seconds = 2"
          "trigger_scaling_factor cfg_seconds = 5"
    by (simp_all add: cfg_seconds_def)
  have w0: "try_body 0 cfg_seconds (timed 3) (fresh_run ten_queued) =
     Some (Return \<lparr> obj = ten_queued, ticks = 2, events = [ForwardCall, Sleep 5] \<rparr>)"
    using seconds_wait_duration [OF t f, of 0 "timed 3" 3 "fresh_run ten_queued"
            "[''total_elapsed_time'' \<mapsto> 3]"]
          seconds_wait_duration [OF t f, of 0 "timed 3" 3
            "suspend (timed 3) ForwardCall (fresh_run ten_queued)" "Map.empty"]
    by (simp add: q c suspend_def timed_def fresh_run_def)
  have w1: "try_body 0 cfg_seconds (timed 20) (fresh_run ten_queued) =
     Some (Return \<lparr> obj = ten_queued, ticks = 2, events = [ForwardCall, Sleep 0] \<rparr>)"
    using seconds_wait_duration [OF t f, of 0 "timed 20" 20 "fresh_run ten_queued"
            "[''total_elapsed_time'' \<mapsto> 20]"]
          seconds_wait_duration [OF t f, of 0 "timed 20" 20
            "suspend (timed 20) ForwardCall (fresh_run ten_queued)" "Map.empty"]
    by (simp add: q c suspend_def timed_def fresh_run_def)
  have w2: "try_body 0 cfg_seconds quiet (fresh_run ten_queued) =
     Some (Return \<lparr> obj = ten_queued, ticks = 2, events = [ForwardCall, Sleep 8] \<rparr>)"
    using seconds_wait_duration [OF t f, of 0 quiet 0 "fresh_run ten_queued" "\<lambda>k. None"]
          seconds_wait_duration [OF t f, of 0 quiet 0
            "suspend quiet ForwardCall (fresh_run ten_queued)" "Map.empty"]
    by (simp add: q c suspend_def quiet_def fresh_run_def)
  show ?thesis using t f w0 w1 w2 by simp
qed

section \<open>Exceptions raised by \<open>forward\<close>\<close>

text \<open>
  The handler is \<^verbatim>\<open>except Exception\<close>: a \<open>CancelledError\<close> raised inside \<open>forward\<close> is
  not caught and ends \<open>start_loop\<close>.
\<close>

theorem forward_base_exception_counterexample:
  "\<not> should_exit (obj (fresh_run ten_queued)) \<and>
   forward_result cancelling 0 = Raises CancelledError \<and>
   start_loop 2 cfg_seconds cancelling (fresh_run ten_queued) =
     Some (Raise CancelledError \<lparr> obj = ten_queued, ticks = 1, events = [ForwardCall] \<rparr>)"
  by (simp add: eval_nat_numeral idle_gate_def iteration_def try_body_def cancelling_def
      cfg_seconds_def fresh_run_def ten_queued_def suspend_def)

text \<open>
  C3 (amended). When \<open>forward\<close> raises an exception that derives from \<open>Exception\<close>, the loop
  logs it, sleeps 1 s and carries on from its top with the next iteration. An exception that
  derives from \<open>BaseException\<close> only leaves \<open>start_loop\<close>.
\<close>

theorem forward_exception_backoff:
  assumes "\<not> should_exit (obj r)" and "idle_gate n cfg w r = Some r1"
      and "forward_result w (ticks r1) = Raises e"
  shows "(is_Exception e \<longrightarrow>
            start_loop (Suc n) cfg w r =
              start_loop n cfg w (suspend w (Sleep 1) (log_error e (suspend w ForwardCall r1))) \<and>
            events (suspend w (Sleep 1) (log_error e (suspend w ForwardCall r1))) =
              events r1 @ [ForwardCall, LogError e, Sleep 1]) \<and>
         (\<not> is_Exception e \<longrightarrow>
            start_loop (Suc n) cfg w r = Some (Raise e (suspend w ForwardCall r1)))"
  using assms
  by (simp add: iteration_def try_body_def Let_def suspend_def log_error_def)

theorem forward_exception_backoff_witness:
  "\<not> should_exit (obj (fresh_run ten_queued)) \<and>
   idle_gate 2 cfg_seconds failing_once (fresh_run ten_queued) = Some (fresh_run ten_queued) \<and>
   forward_result failing_once (ticks (fresh_run ten_queued)) = Raises (OtherException ''boom'') \<and>
   is_Exception (OtherException ''boom'') \<and>
   start_loop 3 cfg_seconds failing_once (fresh_run ten_queued) =
     Some (Return \<lparr> obj = ten_queued\<lparr>should_exit := True\<rparr>, ticks = 4,
                    events = [ForwardCall, LogError (OtherException ''boom''), Sleep 1,
                              ForwardCall, Sleep 8] \<rparr>)"
proof -
  have a: "\<not> should_exit (obj (fresh_run ten_queued))"
    by (simp add: fresh_run_def ten_queued_def)
  have b: "idle_gate 2 cfg_seconds failing_once (fresh_run ten_queued) = Some (fresh_run ten_queued)"
    by (simp add: idle_gate_def cfg_seconds_def)
  have c: "forward_result failing_once (ticks (fresh_run ten_queued)) = Raises (OtherException ''boom'')"
    by (simp add: failing_once_def fresh_run_def)
  have d: "start_loop 2 cfg_seconds failing_once
             (suspend failing_once (Sleep 1) (log_error (OtherException ''boom'')
                (suspend failing_once ForwardCall (fresh_run ten_queued)))) =
           Some (Return \<lparr> obj = ten_queued\<lparr>should_exit := True\<rparr>, ticks = 4,
                    events = [ForwardCall, LogError (OtherException ''boom''), Sleep 1,
                              ForwardCall, Sleep 8] \<rparr>)"
    by (simp add: eval_nat_numeral idle_gate_def iteration_def try_body_def failing_once_def
        wait_until_next_def sample_rate_dynamic_def log_error_def
        cfg_seconds_def fresh_run_def ten_queued_def suspend_def)
  show ?thesis
    using forward_exception_backoff [OF a b c] a b c d by simp
qed

end
